theory Spec2Isabelle
  imports
    Complex_Main
    "HOL-Library.Char_ord"
    "HOL-Library.List_Lexorder"
    "HOL-Library.Product_Lexorder"
begin

section \<open>Coverage states (scripts/build\_coverage.py)\<close>

text \<open>
  The six coverage states are the module-level integer constants of
  \<^verbatim>\<open>build_coverage.py\<close>; a higher number is a better state.
\<close>

definition FULL :: int where "FULL = 5"
definition GENOME_ANNOTATION_ONLY :: int where "GENOME_ANNOTATION_ONLY = 4"
definition GENOME_READS_NO_ANNOTATION :: int where "GENOME_READS_NO_ANNOTATION = 3"
definition GENOME_ONLY :: int where "GENOME_ONLY = 2"
definition READS_ONLY :: int where "READS_ONLY = 1"
definition NO_DATA :: int where "NO_DATA = 0"

text \<open>
  \<^verbatim>\<open>species_state(has_assembly, has_annotation, has_reads)\<close>: a chain of
  \<^verbatim>\<open>if ...: return\<close> statements, kept in the order of the source.
\<close>

definition species_state :: "bool \<Rightarrow> bool \<Rightarrow> bool \<Rightarrow> int" where
  "species_state has_assembly has_annotation has_reads =
     (let asm = has_assembly; ann = has_annotation; reads = has_reads in
      if ann \<and> reads then FULL
      else if ann \<and> \<not> reads then GENOME_ANNOTATION_ONLY
      else if asm \<and> \<not> ann \<and> reads then GENOME_READS_NO_ANNOTATION
      else if asm \<and> \<not> ann \<and> \<not> reads then GENOME_ONLY
      else if \<not> asm \<and> reads then READS_ONLY
      else NO_DATA)"

lemmas state_consts =
  FULL_def GENOME_ANNOTATION_ONLY_def GENOME_READS_NO_ANNOTATION_def
  GENOME_ONLY_def READS_ONLY_def NO_DATA_def

subsection \<open>Loading the species matrix\<close>

text \<open>
  \<^verbatim>\<open>load_species_matrix\<close> reads one row per species: the taxid and three integer
  columns, each turned into a flag by \<^verbatim>\<open>bool(...)\<close> (non-zero is true). The rows
  are stored into a dictionary one after the other, so the last row of a taxid wins.
  Reading the file itself is outside the model; the rows are the input.
\<close>

type_synonym matrix_row = "int \<times> int \<times> int \<times> int"

definition load_species_matrix :: "matrix_row list \<Rightarrow> (int \<rightharpoonup> int)" where
  "load_species_matrix rows =
     fold (\<lambda>(tid, a, n, r) result.
             result(tid \<mapsto> species_state (a \<noteq> 0) (n \<noteq> 0) (r \<noteq> 0)))
          rows Map.empty"

subsection \<open>Propagation up the tree\<close>

text \<open>
  \<^verbatim>\<open>parents\<close> is a dictionary child \<open>\<rightarrow>\<close> parent. It is modelled by the list of
  its items in insertion order (\<^verbatim>\<open>parents.items()\<close>); as keys of a dictionary the
  first components are distinct. \<^verbatim>\<open>all_taxids\<close> is a Python set; it is modelled by
  a list of its elements, whose order stands for the iteration order of the set.
  A state dictionary is a map, and \<^verbatim>\<open>state.get(k, NO_DATA)\<close> is \<open>get_state\<close>.
\<close>

definition get_state :: "(int \<rightharpoonup> int) \<Rightarrow> int \<Rightarrow> int" where
  "get_state st k = (case st k of None \<Rightarrow> NO_DATA | Some v \<Rightarrow> v)"

text \<open>
  The children map built by the loop over \<^verbatim>\<open>parents.items()\<close>: the children of
  \<open>p\<close> in the order of the items; \<^verbatim>\<open>children.get(n, [])\<close> is the empty list for a
  node without children.
\<close>

definition children_of :: "(int \<times> int) list \<Rightarrow> int \<Rightarrow> int list" where
  "children_of parents p = map fst (filter (\<lambda>(c, q). q = p) parents)"

text \<open>
  The traversal loop \<^verbatim>\<open>while stack: n = stack.pop(); ...\<close>. The Python list
  \<^verbatim>\<open>stack\<close> is kept with its top (its last element) first, so \<^verbatim>\<open>stack.pop()\<close>
  takes the head and the children appended one by one end up reversed in front.
  The membership test \<^verbatim>\<open>c not in seen\<close> runs after \<^verbatim>\<open>seen.add(n)\<close>.
\<close>

function dfs :: "(int \<times> int) list \<Rightarrow> int list \<Rightarrow> int set \<Rightarrow> int list \<Rightarrow> int list" where
  "dfs parents [] seen order = order"
| "dfs parents (n # stack) seen order =
     (if n \<in> seen then dfs parents stack seen order
      else dfs parents
             (rev (filter (\<lambda>c. c \<notin> insert n seen) (children_of parents n)) @ stack)
             (insert n seen) (order @ [n]))"
  by pat_completeness auto

lemma children_of_keys: "set (children_of parents p) \<subseteq> fst ` set parents"
  by (auto simp: children_of_def)

termination dfs
proof (relation "measures
    [\<lambda>(parents, stack, seen, order). card ((set stack \<union> fst ` set parents) - seen),
     \<lambda>(parents, stack, seen, order). length stack]", goal_cases)
  case 1
  show ?case by simp
next
  case (2 parents n stack seen order)
  have "(set stack \<union> fst ` set parents) - seen \<subseteq> (set (n # stack) \<union> fst ` set parents) - seen"
    by auto
  then have "card ((set stack \<union> fst ` set parents) - seen)
      \<le> card ((set (n # stack) \<union> fst ` set parents) - seen)"
    by (intro card_mono) auto
  then show ?case by auto
next
  case (3 parents n stack seen order)
  let ?K = "filter (\<lambda>c. c \<notin> insert n seen) (children_of parents n)"
  have "(set (rev ?K @ stack) \<union> fst ` set parents) - insert n seen
      \<subset> (set (n # stack) \<union> fst ` set parents) - seen"
    using 3 children_of_keys [of parents n] by auto
  then have "card ((set (rev ?K @ stack) \<union> fst ` set parents) - insert n seen)
      < card ((set (n # stack) \<union> fst ` set parents) - seen)"
    by (intro psubset_card_mono) auto
  then show ?case by simp
qed

text \<open>
  The body of the final loop \<^verbatim>\<open>for n in reversed(order)\<close>: a node with children
  takes the maximum of its own state and the best state of its children.
\<close>

definition update_node :: "(int \<times> int) list \<Rightarrow> int \<Rightarrow> (int \<rightharpoonup> int) \<Rightarrow> (int \<rightharpoonup> int)" where
  "update_node parents n st =
     (let kids = children_of parents n in
      if kids \<noteq> [] then
        (let best = Max (set (map (get_state st) kids)) in
         st(n \<mapsto> max (get_state st n) best))
      else st)"

definition tree_roots :: "(int \<times> int) list \<Rightarrow> int list \<Rightarrow> int list" where
  "tree_roots parents all_taxids =
     filter (\<lambda>t. t \<notin> fst ` set parents) (remdups all_taxids)"

definition traversal_order :: "(int \<times> int) list \<Rightarrow> int list \<Rightarrow> int list" where
  "traversal_order parents all_taxids =
     dfs parents (rev (tree_roots parents all_taxids)) {} []"

definition propagate_states ::
    "(int \<rightharpoonup> int) \<Rightarrow> (int \<times> int) list \<Rightarrow> int list \<Rightarrow> (int \<rightharpoonup> int)" where
  "propagate_states species_states parents all_taxids =
     (let state = (\<lambda>tid. if tid \<in> set all_taxids
                          then Some (get_state species_states tid) else None);
          order = traversal_order parents all_taxids
      in fold (update_node parents) (rev order) state)"

text \<open>
  A rooted input: the keys of \<^verbatim>\<open>parents\<close> are distinct (it is a dictionary), and
  every node that occurs (in \<^verbatim>\<open>all_taxids\<close>, as a child or as a parent) reaches,
  by following parent links, a node of \<^verbatim>\<open>all_taxids\<close> that has no parent.
\<close>

fun reaches_root :: "(int \<times> int) list \<Rightarrow> int set \<Rightarrow> nat \<Rightarrow> int \<Rightarrow> bool" where
  "reaches_root parents roots 0 n = (n \<in> roots)"
| "reaches_root parents roots (Suc k) n =
     (n \<in> roots \<or>
      (case map_of parents n of None \<Rightarrow> False | Some p \<Rightarrow> reaches_root parents roots k p))"

definition rooted_tree :: "(int \<times> int) list \<Rightarrow> int list \<Rightarrow> bool" where
  "rooted_tree parents all_taxids =
     (distinct (map fst parents) \<and>
      (\<forall>n \<in> set all_taxids \<union> fst ` set parents \<union> snd ` set parents.
         reaches_root parents (set (tree_roots parents all_taxids)) (length parents) n))"

text \<open>
  The classification a taxid has in the species matrix: that of its last row, and
  \<open>NO_DATA\<close> when the matrix has no row for it.
\<close>

definition leaf_classification :: "matrix_row list \<Rightarrow> int \<Rightarrow> int" where
  "leaf_classification rows tid =
     (case filter (\<lambda>(t, a, n, r). t = tid) (rev rows) of
        [] \<Rightarrow> NO_DATA
      | (t, a, n, r) # _ \<Rightarrow> species_state (a \<noteq> 0) (n \<noteq> 0) (r \<noteq> 0))"

text \<open>
  Two notions for the proofs. A list is in topological order (relative to a set \<open>S\<close>
  of pending nodes) when the children of each element occur later in the list or in
  \<open>S\<close>. The loop invariant of the traversal: visited and pending nodes are pairwise
  distinct, the parent of a visited or pending node has been visited, and the visited
  nodes are in topological order relative to the stack.
\<close>

fun topo :: "(int \<times> int) list \<Rightarrow> int set \<Rightarrow> int list \<Rightarrow> bool" where
  "topo parents S [] = True"
| "topo parents S (v # vs) =
     (set (children_of parents v) \<subseteq> set vs \<union> S \<and> topo parents S vs)"

definition dfs_inv :: "(int \<times> int) list \<Rightarrow> int list \<Rightarrow> int list \<Rightarrow> bool" where
  "dfs_inv parents stack order =
     (distinct (order @ stack) \<and>
      (\<forall>c \<in> set order \<union> set stack. \<forall>p. map_of parents c = Some p \<longrightarrow> p \<in> set order) \<and>
      topo parents (set stack) order)"

section \<open>Tiles and level of detail (scripts/build\_tree\_tiles.py)\<close>

text \<open>
  A row of the merged data frame, with the columns \<^verbatim>\<open>build_tiles\<close> selects. The
  float columns are real numbers here: the model computes in exact arithmetic and has
  no NaN.
\<close>

record tile_row =
  taxid :: int
  parent_taxid :: int
  xpos :: real
  ypos :: real
  depth :: int
  coverage_state :: int
  taxon_name :: string
  taxon_rank :: string

definition MAX_NODES_PER_TILE :: int where "MAX_NODES_PER_TILE = 20000"

definition ZOOM_LEVELS :: "nat list" where "ZOOM_LEVELS = [0..<8]"

subsection \<open>Row assignment\<close>

text \<open>
  \<^verbatim>\<open>astype(np.int64)\<close> truncates a float towards zero when the result fits into
  64 bits. For a value outside that range the result of the cast depends on the
  platform; it is the parameter \<open>oor\<close> (some 64-bit integer) of the model.
\<close>

definition trunc_toward_zero :: "real \<Rightarrow> int" where
  "trunc_toward_zero v = (if 0 \<le> v then \<lfloor>v\<rfloor> else \<lceil>v\<rceil>)"

definition astype_int64 :: "int \<Rightarrow> real \<Rightarrow> int" where
  "astype_int64 oor v =
     (if - (2 ^ 63) \<le> trunc_toward_zero v \<and> trunc_toward_zero v < 2 ^ 63
      then trunc_toward_zero v else oor)"

definition clip :: "int \<Rightarrow> int \<Rightarrow> int \<Rightarrow> int" where
  "clip lo hi v = min hi (max lo v)"

text \<open>\<^verbatim>\<open>assign_tile_y(df, z)\<close>, for the \<^verbatim>\<open>y\<close> of one row.\<close>

definition assign_tile_y :: "int \<Rightarrow> nat \<Rightarrow> real \<Rightarrow> int" where
  "assign_tile_y oor z yv =
     (let n_tiles = (2::int) ^ z in
      clip 0 (n_tiles - 1) (astype_int64 oor (yv * real_of_int n_tiles)))"

subsection \<open>Chain collapsing\<close>

text \<open>
  The adjacency \<^verbatim>\<open>parent_to_children\<close> of a tile: the loop over the rows appends
  the taxid of a row to the list of its parent when the parent is non-negative and is
  itself a taxid of the tile. \<^verbatim>\<open>parent_to_children.get(p, [])\<close> is the list, empty
  for a taxid without children in the tile.
\<close>

definition parent_to_children :: "tile_row list \<Rightarrow> int \<Rightarrow> int list" where
  "parent_to_children tile_df p =
     map taxid (filter (\<lambda>row. parent_taxid row = p \<and> p \<ge> 0 \<and> p \<in> taxid ` set tile_df) tile_df)"

definition keep_node :: "tile_row list \<Rightarrow> int \<Rightarrow> bool" where
  "keep_node tile_df tid =
     (let children = parent_to_children tile_df tid in
      if length children = 0 then True
      else if length children \<ge> 2 then True
      else (let child = children ! 0;
                child_children = parent_to_children tile_df child
            in length child_children \<noteq> 1))"

definition keep :: "tile_row list \<Rightarrow> int set" where
  "keep tile_df = {tid \<in> taxid ` set tile_df. keep_node tile_df tid}"

definition collapse_chains :: "tile_row list \<Rightarrow> tile_row list" where
  "collapse_chains tile_df =
     (if int (length tile_df) \<le> MAX_NODES_PER_TILE then tile_df
      else filter (\<lambda>row. taxid row \<in> keep tile_df) tile_df)"

subsection \<open>Aggregation\<close>

text \<open>
  \<^verbatim>\<open>DataFrame.head(n)\<close>: the first \<open>n\<close> rows, and for a negative \<open>n\<close> all rows but
  the last \<open>-n\<close>. \<^verbatim>\<open>iloc[::step]\<close> takes every \<open>step\<close>-th row from the first on.
\<close>

definition head :: "int \<Rightarrow> 'a list \<Rightarrow> 'a list" where
  "head n xs = (if 0 \<le> n then take (nat n) xs else take (length xs - nat (- n)) xs)"

fun every_nth :: "nat \<Rightarrow> 'a list \<Rightarrow> 'a list" where
  "every_nth step [] = []"
| "every_nth step (r # rs) = r # every_nth step (drop (step - 1) rs)"

text \<open>
  The sampling of one stratum (\<^verbatim>\<open>with_data\<close> or \<^verbatim>\<open>without_data\<close>) for a quota:
  the three branches of the source.
\<close>

definition sample :: "tile_row list \<Rightarrow> int \<Rightarrow> tile_row list" where
  "sample stratum quota =
     (if quota \<le> 0 then []
      else if int (length stratum) \<le> quota then stratum
      else (let step = max 1 (int (length stratum) div quota)
            in head quota (every_nth (nat step) stratum)))"

definition aggregate_subtrees :: "tile_row list \<Rightarrow> int \<Rightarrow> tile_row list" where
  "aggregate_subtrees tile_df max_n =
     (if int (length tile_df) \<le> max_n then tile_df
      else
        (let df = sort_key (\<lambda>row. (depth row, ypos row)) tile_df;
             structural = filter (\<lambda>row. depth row \<le> 8) df;
             rest = filter (\<lambda>row. depth row > 8) df
         in if int (length structural) \<ge> max_n then head max_n structural
            else
              (let with_data = filter (\<lambda>row. coverage_state row > 0) rest;
                   without_data = filter (\<lambda>row. coverage_state row = 0) rest;
                   take_from_with = min (int (length with_data)) (max_n - int (length structural));
                   take_from_without = max 0 (max_n - int (length structural) - take_from_with);
                   with_sample = sample with_data take_from_with;
                   without_sample = sample without_data take_from_without;
                   result = structural @ with_sample @ without_sample
               in head max_n result)))"

definition lod_downsample :: "tile_row list \<Rightarrow> int \<Rightarrow> tile_row list" where
  "lod_downsample tile_df max_n =
     (if int (length tile_df) \<le> max_n then tile_df
      else if int (length tile_df) > 100000 then aggregate_subtrees tile_df max_n
      else aggregate_subtrees (collapse_chains tile_df) max_n)"

subsection \<open>Building the tiles\<close>

text \<open>
  \<^verbatim>\<open>build_tiles\<close> writes one tile per zoom level and row; the model returns them
  with their keys. \<open>bucket\<close> is the selection \<^verbatim>\<open>df.loc[tile_y == ty]\<close> before the
  reduction.
\<close>

definition bucket :: "int \<Rightarrow> tile_row list \<Rightarrow> nat \<Rightarrow> int \<Rightarrow> tile_row list" where
  "bucket oor df z ty = filter (\<lambda>row. assign_tile_y oor z (ypos row) = ty) df"

definition tile_of :: "int \<Rightarrow> tile_row list \<Rightarrow> nat \<Rightarrow> int \<Rightarrow> tile_row list" where
  "tile_of oor df z ty = lod_downsample (bucket oor df z ty) MAX_NODES_PER_TILE"

definition build_tiles :: "int \<Rightarrow> tile_row list \<Rightarrow> ((nat \<times> int) \<times> tile_row list) list" where
  "build_tiles oor df =
     concat (map (\<lambda>z. map (\<lambda>ty. ((z, ty), tile_of oor df z ty)) [0..2 ^ z - 1]) ZOOM_LEVELS)"

subsection \<open>Example tiles\<close>

text \<open>
  Inputs for the concrete instances below: a single row, and a tile of 20001 rows. The
  large tile holds a branch point 1 with 19996 leaf children (taxids from 6 on) and the
  single-child chain 2 \<open>\<rightarrow>\<close> 3 \<open>\<rightarrow>\<close> 4 \<open>\<rightarrow>\<close> 5 below it; \<open>small_chain\<close> is
  the tile of the four chain rows alone, their branch point lying in another tile.
\<close>

definition row0 :: tile_row where
  "row0 = \<lparr>taxid = 7, parent_taxid = 1, xpos = 1/2, ypos = 1, depth = 3, coverage_state = 0,
           taxon_name = ''a'', taxon_rank = ''species''\<rparr>"

definition mk_row :: "int \<Rightarrow> int \<Rightarrow> int \<Rightarrow> tile_row" where
  "mk_row t p d = \<lparr>taxid = t, parent_taxid = p, xpos = 0, ypos = 0, depth = d,
       coverage_state = 0, taxon_name = [], taxon_rank = []\<rparr>"

definition n_leaves :: nat where "n_leaves = 19996"

definition chain_tile :: "tile_row list" where
  "chain_tile =
     [mk_row 1 (- 1) 0, mk_row 2 1 1, mk_row 3 2 2, mk_row 4 3 3, mk_row 5 4 4]
       @ map (\<lambda>i. mk_row (6 + int i) 1 1) [0..<n_leaves]"

definition small_chain :: "tile_row list" where
  "small_chain = [mk_row 2 1 1, mk_row 3 2 2, mk_row 4 3 3, mk_row 5 4 4]"

section \<open>Trees (pipeline/build\_tree.py)\<close>

text \<open>
  A tree node is the dictionary \<^verbatim>\<open>{"id", "name", "rank", "children"}\<close> that
  \<^verbatim>\<open>make_node\<close> builds. The layout stores the descendant count under the key
  \<^verbatim>\<open>"nbdesc"\<close> and reads it back when the key is present, so the node carries that
  key as an optional field; \<^verbatim>\<open>build_tree\<close> leaves it absent.
\<close>

datatype tree =
  Node (node_id: string) (node_name: string) (node_rank: string)
       (nbdesc_key: "nat option") (node_children: "tree list")

datatype py_error = ValueError | IndexError | RecursionError | OverflowError

















section \<open>Radial layout (scripts/radial\_layout.py)\<close>

text \<open>
  The layout computes with Python floats (binary64). The model treats them as follows.
  \<^item> A float literal denotes the nearest double, and the constants of the module are
    these doubles; \<open>binary64\<close> rounds a real number to the nearest double.
  \<^item> The layout pass computes in real arithmetic, with the mathematical \<open>sqrt\<close>,
    \<open>sin\<close>, \<open>cos\<close> and \<open>log\<close>: its values are those of the code up to rounding.
  \<^item> Where the code leaves the finite doubles it raises: the quotient
    \<^verbatim>\<open>ZOOM_CONST / ray\<close> overflows to infinity for a tiny positive ray and
    \<^verbatim>\<open>math.ceil\<close> then raises \<^verbatim>\<open>OverflowError\<close>. This path is modelled.
  \<^item> The model is the call with the default keyword arguments, \<^verbatim>\<open>radial_layout(tree)\<close>,
    which is the call of the pipeline. All rays then lie between 0 and 10.
\<close>

subsection \<open>Doubles\<close>

text \<open>Rounding to the nearest integer, ties to the even one.\<close>

definition round_half_even :: "real \<Rightarrow> int" where
  "round_half_even q =
     (let f = \<lfloor>q\<rfloor> in
      if q - real_of_int f < 1 / 2 then f
      else if q - real_of_int f > 1 / 2 then f + 1
      else if even f then f else f + 1)"

text \<open>
  The nearest double of a real number in the normal range: 53 significant bits, so the
  spacing of the doubles around \<open>v\<close> is \<open>2\<close> to the power \<open>\<lfloor>log 2 \<bar>v\<bar>\<rfloor> - 52\<close>.
  Subnormal numbers and overflow do not occur at the constants this is used for.
\<close>

definition binary64 :: "real \<Rightarrow> real" where
  "binary64 v =
     (if v = 0 then 0
      else (let e = \<lfloor>log 2 \<bar>v\<bar>\<rfloor> - 52
            in real_of_int (round_half_even (v / 2 powr real_of_int e)) * 2 powr real_of_int e))"

text \<open>
  A real quotient whose double is infinite: the largest double is \<open>2 ^ 1024 - 2 ^ 971\<close>,
  and rounding gives infinity from the midpoint \<open>2 ^ 1024 - 2 ^ 970\<close> on.
\<close>

definition float_overflows :: "real \<Rightarrow> bool" where
  "float_overflows q = (2 ^ 1024 - 2 ^ 970 \<le> q)"

subsection \<open>Constants\<close>

text \<open>
  \<^verbatim>\<open>ROOT_Y = 9.660254 - 10.0\<close> is a difference of two doubles, rounded to a double.
  The other literals are integers, which are doubles.
\<close>

definition ROOT_X :: real where "ROOT_X = - 6.0"
definition ROOT_Y :: real where "ROOT_Y = binary64 (binary64 9.660254 - binary64 10.0)"
definition ROOT_ALPHA :: real where "ROOT_ALPHA = 150.0"
definition ROOT_RAY :: real where "ROOT_RAY = 10.0"
definition ZOOM_CONST :: real where "ZOOM_CONST = 30.0"
definition POLY_N :: nat where "POLY_N = 10"
definition MIN_NBDESC_FOR_POLYGON :: nat where "MIN_NBDESC_FOR_POLYGON = 3"

definition rad :: "real \<Rightarrow> real" where
  "rad deg = deg * pi / 180.0"

text \<open>
  \<^verbatim>\<open>_count_descendants\<close>: the stored count when the key \<^verbatim>\<open>"nbdesc"\<close> is present,
  otherwise one more than the counts of the children. The source stores the computed
  count in the node; a later call then returns the same number, so the function of the
  model needs no store.
\<close>

fun count_descendants :: "tree \<Rightarrow> nat" where
  "count_descendants (Node i nm rk pre cs) =
     (case pre of
        Some n \<Rightarrow> n
      | None \<Rightarrow> 1 + sum_list (map count_descendants cs))"

text \<open>
  The depth of the calls of \<^verbatim>\<open>_count_descendants(tree)\<close>: the recursion stops at a
  stored count and otherwise goes one level down into every child.
\<close>

fun count_depth :: "tree \<Rightarrow> nat" where
  "count_depth (Node i nm rk pre cs) =
     (case pre of
        Some n \<Rightarrow> 1
      | None \<Rightarrow> 1 + fold max (map count_depth cs) 0)"

subsection \<open>Polygons\<close>

definition half_circle :: "real \<Rightarrow> real \<Rightarrow> real \<Rightarrow> real \<Rightarrow> real \<Rightarrow> nat \<Rightarrow> (real \<times> real) list" where
  "half_circle cx cy r start stop n =
     map (\<lambda>i. let t = (if n > 1 then start + (stop - start) * real i / real (n - 1) else start)
               in (cx + r * cos t, cy + r * sin t))
         [0..<n]"

definition ellipse :: "real \<Rightarrow> real \<Rightarrow> real \<Rightarrow> real \<Rightarrow> nat \<Rightarrow> (real \<times> real) list" where
  "ellipse cx cy r alpha_rad n =
     (let a = r; b = r / 6.0; ca = cos alpha_rad; sa = sin alpha_rad in
      map (\<lambda>i. let t = (if n > 1 then pi * real i / real (n - 1) else 0.0);
                    ct = cos t; st = sin t
                in (cx + a * ct * ca - b * st * sa, cy + a * ct * sa + b * st * ca))
          [0..<n])"

definition make_polygon :: "real \<Rightarrow> real \<Rightarrow> real \<Rightarrow> real \<Rightarrow> (real \<times> real) list" where
  "make_polygon cx cy r alpha_deg =
     (let ar = rad alpha_deg;
          hc = half_circle cx cy r (ar + pi / 2) (ar - pi / 2) POLY_N;
          el = ellipse cx cy r ar POLY_N
      in hc @ el)"

subsection \<open>The layout pass\<close>

text \<open>
  The attributes the layout writes into a node dictionary, together with the id, name
  and rank it already has. The laid-out tree is the tree of these records.
\<close>

record lnode =
  lid :: string
  lname :: string
  lrank :: string
  px :: real
  py :: real
  alpha :: real
  ray :: real
  zoomview :: int
  nbdesc :: nat

datatype ltree = LNode (attrs: lnode) (lchildren: "ltree list")

text \<open>
  Angle allocation, from the descendant counts of the children: the total of the
  square roots (1.0 when it is not positive) and the half-angle of each child.
\<close>

definition child_angs :: "nat list \<Rightarrow> real list" where
  "child_angs descs =
     (let tot0 = sum_list (map (\<lambda>d. sqrt (real d)) descs);
          tot = (if tot0 \<le> 0 then 1.0 else tot0)
      in map (\<lambda>d. 180.0 * (sqrt (real d) / tot) / 2.0) descs)"

text \<open>
  The special single-child cases, decided from the number of children and the
  \<^verbatim>\<open>nbdesc\<close> of the node itself.
\<close>

definition special_case :: "nat \<Rightarrow> nat \<Rightarrow> nat" where
  "special_case n_children nb =
     (if n_children = 1 \<and> nb > 1 then 1
      else if n_children = 1 \<and> nb = 1 then 2
      else 0)"

definition child_ray :: "nat \<Rightarrow> real \<Rightarrow> real \<Rightarrow> real" where
  "child_ray special r ang =
     (if special = 1 then r - (r * 20) / 100
      else if special = 2 then r - (r * 50) / 100
      else (let tan_ang = sin (rad ang) / cos (rad ang)
            in (r * tan_ang) / (1.0 + tan_ang)))"

text \<open>The running sums of a list, \<^verbatim>\<open>ang_cumsum\<close> of the source.\<close>

fun cumsum :: "real \<Rightarrow> real list \<Rightarrow> real list" where
  "cumsum s [] = []"
| "cumsum s (a # as) = (s + a) # cumsum (s + a) as"

definition ang_final :: "real \<Rightarrow> real list \<Rightarrow> real list" where
  "ang_final parent_alpha angles =
     (let ang_doubled = concat (map (\<lambda>a. [a, a]) angles);
          ang_cumsum = cumsum 0.0 ang_doubled
      in map (\<lambda>a. a - (90.0 - parent_alpha))
             (map (\<lambda>i. ang_cumsum ! (2 * i)) [0..<length angles]))"

text \<open>
  The zoom level of a child: \<^verbatim>\<open>zv = math.log2(ZOOM_CONST / ray) if ray > 0 else 0\<close>
  and \<^verbatim>\<open>max(0, math.ceil(zv))\<close>. When the quotient is infinite so is \<open>zv\<close>, and
  \<^verbatim>\<open>math.ceil\<close> raises \<^verbatim>\<open>OverflowError\<close>.
\<close>

definition zoomview_of :: "real \<Rightarrow> py_error + int" where
  "zoomview_of r =
     (if r > 0 then
        (if float_overflows (ZOOM_CONST / r) then Inl OverflowError
         else Inr (max 0 \<lceil>log 2 (ZOOM_CONST / r)\<rceil>))
      else Inr (max 0 \<lceil>0 :: real\<rceil>))"

text \<open>The results of a list of steps: the first error, or all the values.\<close>

fun sequence :: "('e + 'a) list \<Rightarrow> 'e + 'a list" where
  "sequence [] = Inr []"
| "sequence (Inl e # rs) = Inl e"
| "sequence (Inr v # rs) = (case sequence rs of Inl e \<Rightarrow> Inl e | Inr vs \<Rightarrow> Inr (v # vs))"

text \<open>
  The attributes the body of \<^verbatim>\<open>_layout\<close> gives the children of a node, in the order
  of the children; the loop that sets position and zoom level stops at the first child
  whose zoom level raises.
\<close>

definition place_children :: "lnode \<Rightarrow> tree list \<Rightarrow> py_error + lnode list" where
  "place_children node cs =
     (let n_children = length cs;
          descs = map count_descendants cs;
          angs = child_angs descs;
          special = special_case n_children (nbdesc node);
          rays = map (child_ray special (ray node)) angs;
          dists = map (\<lambda>r. ray node - r) rays;
          finals = ang_final (alpha node) angs
      in sequence
           (map (\<lambda>i. case zoomview_of (rays ! i) of
                        Inl e \<Rightarrow> Inl e
                      | Inr zv \<Rightarrow>
                          Inr \<lparr>lid = node_id (cs ! i),
                               lname = node_name (cs ! i),
                               lrank = node_rank (cs ! i),
                               px = px node + (dists ! i) * cos (rad (finals ! i)),
                               py = py node + (dists ! i) * sin (rad (finals ! i)),
                               alpha = finals ! i,
                               ray = rays ! i,
                               zoomview = zv,
                               nbdesc = descs ! i\<rparr>)
                [0..<n_children]))"

text \<open>
  \<^verbatim>\<open>_layout(node)\<close> calls itself once per level of the tree. The first argument bounds
  the depth of the calls as the recursion limit does (the module sets it to 5000);
  running out of it is \<^verbatim>\<open>RecursionError\<close>. A node without children is left as it is;
  otherwise the children are placed and then each is laid out in turn with its own
  attributes.
\<close>

fun layout :: "nat \<Rightarrow> tree \<Rightarrow> lnode \<Rightarrow> py_error + ltree" where
  "layout 0 t a = Inl RecursionError"
| "layout (Suc limit) (Node i nm rk pre cs) a =
     (case place_children a cs of
        Inl e \<Rightarrow> Inl e
      | Inr as \<Rightarrow>
          (case sequence (map (\<lambda>(c, b). layout limit c b) (zip cs as)) of
             Inl e \<Rightarrow> Inl e
           | Inr ls \<Rightarrow> Inr (LNode a ls)))"

subsection \<open>The public function\<close>

text \<open>A node as \<^verbatim>\<open>_collect\<close> emits it: the attributes, the polygon, its centroid, and the tip flag.\<close>

record out_node = lnode +
  polygon :: "(real \<times> real) list option"
  clade_center :: "(real \<times> real) option"
  tip :: bool

definition emit :: "lnode \<Rightarrow> bool \<Rightarrow> out_node" where
  "emit a is_internal =
     (if is_internal \<and> ray a > 0 \<and> nbdesc a \<ge> MIN_NBDESC_FOR_POLYGON then
        (let poly = make_polygon (px a) (py a) (ray a) (alpha a);
             cx = sum_list (map fst poly) / real (length poly);
             cy = sum_list (map snd poly) / real (length poly)
         in lnode.extend a \<lparr>polygon = Some poly, clade_center = Some (cx, cy), tip = \<not> is_internal\<rparr>)
      else lnode.extend a \<lparr>polygon = None, clade_center = None, tip = \<not> is_internal\<rparr>)"

fun collect :: "ltree \<Rightarrow> out_node list" where
  "collect (LNode a cs) = emit a (length cs > 0) # concat (map collect cs)"

record layout_result =
  rl_nodes :: "out_node list"
  rl_root_id :: string
  rl_tree :: ltree

text \<open>
  \<^verbatim>\<open>radial_layout(tree)\<close> with the default keyword arguments. The first argument is
  the number of nested calls the interpreter admits for the three recursive passes
  (counting, layout, collecting), at most the 5000 the module sets. Counting comes
  first and raises \<^verbatim>\<open>RecursionError\<close> when it would go deeper; the root then gets the
  default attributes, whose zoom level \<^verbatim>\<open>max(0, ceil(log2(30.0 / 10.0)))\<close> is finite;
  then the layout pass runs. \<^verbatim>\<open>_collect\<close> descends exactly as the layout pass did.
  The result holds the emitted nodes and the root id; \<open>rl_tree\<close> is the tree the
  function has annotated in place.
\<close>

definition radial_layout :: "nat \<Rightarrow> tree \<Rightarrow> py_error + layout_result" where
  "radial_layout limit t =
     (if count_depth t > limit then Inl RecursionError
      else
        (let root = \<lparr>lid = node_id t, lname = node_name t, lrank = node_rank t,
                      px = ROOT_X, py = ROOT_Y, alpha = ROOT_ALPHA, ray = ROOT_RAY,
                      zoomview = max 0 \<lceil>log 2 (ZOOM_CONST / ROOT_RAY)\<rceil>,
                      nbdesc = count_descendants t\<rparr>
         in case layout limit t root of
              Inl e \<Rightarrow> Inl e
            | Inr laid \<Rightarrow>
                Inr \<lparr>rl_nodes = collect laid, rl_root_id = node_id t, rl_tree = laid\<rparr>))"




subsection \<open>Example trees\<close>

text \<open>
  The tree of the end-to-end scenario of the specification (root R with the children
  B, which has the leaves X and Y, and the leaf C); a root with a single leaf child; and
  a root whose single child has two leaves.
\<close>

definition leaf :: "string \<Rightarrow> tree" where
  "leaf i = Node i i ''species'' None []"


definition single_leaf_tree :: tree where
  "single_leaf_tree = Node ''r'' ''r'' ''no rank'' None [leaf ''c'']"


section \<open>Theorems\<close>

text \<open>
  Claim C5. On each of the eight combinations of (has\_assembly, has\_annotation,
  has\_reads) the leaf classification returns the state of the six-rule priority table:
  annotation and reads give 5, annotation without reads gives 4, assembly without
  annotation but with reads gives 3, assembly alone gives 2, reads alone give 1, and
  nothing gives 0.
\<close>

theorem species_state_table:
  "species_state False False False = 0 \<and>
   species_state False False True = 1 \<and>
   species_state False True False = 4 \<and>
   species_state False True True = 5 \<and>
   species_state True False False = 2 \<and>
   species_state True False True = 3 \<and>
   species_state True True False = 4 \<and>
   species_state True True True = 5"
  by (simp add: species_state_def state_consts)

subsection \<open>Coverage propagation\<close>

lemma topo_snoc:
  "topo parents S xs \<Longrightarrow> S \<subseteq> insert n S' \<Longrightarrow> set (children_of parents n) \<subseteq> S'
     \<Longrightarrow> topo parents S' (xs @ [n])"
  by (induction xs) auto

lemma topo_closed:
  "topo parents S vs \<Longrightarrow> v \<in> set vs \<Longrightarrow> set (children_of parents v) \<subseteq> set vs \<union> S"
  by (induction vs) auto

lemma children_of_map_of:
  "distinct (map fst parents) \<Longrightarrow> c \<in> set (children_of parents p) \<longleftrightarrow> map_of parents c = Some p"
  by (force simp: children_of_def)

lemma distinct_children_of:
  "distinct (map fst parents) \<Longrightarrow> distinct (children_of parents p)"
  unfolding children_of_def by (induction parents) auto

lemma dfs_inv_step:
  assumes d: "distinct (map fst parents)" and inv: "dfs_inv parents (n # stack) order"
  shows "dfs_inv parents
           (rev (filter (\<lambda>c. c \<notin> insert n (set order)) (children_of parents n)) @ stack)
           (order @ [n])"
proof -
  let ?kids = "children_of parents n"
  let ?K = "filter (\<lambda>c. c \<notin> insert n (set order)) ?kids"
  have n_new: "n \<notin> set order" "n \<notin> set stack" and dist: "distinct order" "distinct stack"
    "set order \<inter> set stack = {}"
    using inv by (auto simp: dfs_inv_def)
  have par: "\<And>c p. c \<in> set order \<union> set (n # stack) \<Longrightarrow> map_of parents c = Some p \<Longrightarrow> p \<in> set order"
    using inv unfolding dfs_inv_def by blast
  have kid_par: "\<And>c. c \<in> set ?kids \<Longrightarrow> map_of parents c = Some n"
    using children_of_map_of [OF d] by simp
  have kid_fresh: "\<And>c. c \<in> set ?kids \<Longrightarrow> c \<notin> set order \<and> c \<notin> set (n # stack)"
    using kid_par par n_new by (metis UnCI)
  have K_eq: "set ?K = set ?kids"
    using kid_fresh by auto
  have 1: "distinct ((order @ [n]) @ rev ?K @ stack)"
    using dist n_new kid_fresh distinct_children_of [OF d, of n] by auto
  have 2: "\<forall>c \<in> set (order @ [n]) \<union> set (rev ?K @ stack).
             \<forall>p. map_of parents c = Some p \<longrightarrow> p \<in> set (order @ [n])"
    using par kid_par by auto
  have "topo parents (set (n # stack)) order"
    using inv by (simp add: dfs_inv_def)
  then have 3: "topo parents (set (rev ?K @ stack)) (order @ [n])"
    by (rule topo_snoc) (use K_eq in auto)
  show ?thesis
    unfolding dfs_inv_def using 1 2 3 by blast
qed

lemma dfs_result:
  "distinct (map fst parents) \<Longrightarrow> dfs_inv parents stack order \<Longrightarrow> seen = set order \<Longrightarrow>
     distinct (dfs parents stack seen order) \<and>
     topo parents {} (dfs parents stack seen order) \<and>
     set order \<union> set stack \<subseteq> set (dfs parents stack seen order)"
proof (induction parents stack seen order rule: dfs.induct)
  case (1 parents seen order)
  then show ?case by (simp add: dfs_inv_def)
next
  case (2 parents n stack seen order)
  have fresh: "n \<notin> seen"
    using 2(4,5) by (auto simp: dfs_inv_def)
  let ?stack' = "rev (filter (\<lambda>c. c \<notin> insert n seen) (children_of parents n)) @ stack"
  have inv': "dfs_inv parents ?stack' (order @ [n])"
    using dfs_inv_step [OF 2(3)] 2(4,5) by simp
  have "distinct (dfs parents ?stack' (insert n seen) (order @ [n])) \<and>
     topo parents {} (dfs parents ?stack' (insert n seen) (order @ [n])) \<and>
     set (order @ [n]) \<union> set ?stack' \<subseteq> set (dfs parents ?stack' (insert n seen) (order @ [n]))"
    using 2(2) [OF fresh 2(3) inv'] 2(5) by simp
  then show ?case using fresh by auto
qed

lemma update_node_other: "k \<noteq> n \<Longrightarrow> update_node parents n st k = st k"
  by (simp add: update_node_def Let_def)

lemma get_state_update_other: "k \<noteq> n \<Longrightarrow> get_state (update_node parents n st) k = get_state st k"
  by (simp add: get_state_def update_node_other)

lemma update_node_leaf: "children_of parents n = [] \<Longrightarrow> update_node parents n st = st"
  by (simp add: update_node_def)

lemma update_node_ge:
  assumes "c \<in> set (children_of parents n)"
  shows "get_state st c \<le> get_state (update_node parents n st) n"
proof -
  have ne: "children_of parents n \<noteq> []" using assms by auto
  have "get_state st c \<le> Max (set (map (get_state st) (children_of parents n)))"
    using assms by (intro Max_ge) auto
  then show ?thesis
    using ne by (simp add: update_node_def Let_def get_state_def)
qed

lemma foldr_update_leaf:
  "children_of parents k = [] \<Longrightarrow> foldr (update_node parents) vs st k = st k"
proof (induction vs)
  case Nil
  then show ?case by simp
next
  case (Cons v vs)
  show ?case
  proof (cases "v = k")
    case True
    then show ?thesis using Cons by (simp add: update_node_leaf)
  next
    case False
    then show ?thesis using Cons by (simp add: update_node_other)
  qed
qed

lemma foldr_update_mono:
  "distinct vs \<Longrightarrow> topo parents {} vs \<Longrightarrow> v \<in> set vs \<Longrightarrow> c \<in> set (children_of parents v) \<Longrightarrow>
     get_state (foldr (update_node parents) vs st) c \<le> get_state (foldr (update_node parents) vs st) v"
proof (induction vs arbitrary: v c)
  case Nil
  then show ?case by simp
next
  case (Cons w ws)
  let ?R' = "foldr (update_node parents) ws st"
  have kids_w: "set (children_of parents w) \<subseteq> set ws" and w_new: "w \<notin> set ws"
    using Cons.prems by auto
  show ?case
  proof (cases "v = w")
    case True
    then have "c \<in> set ws" "c \<noteq> w" using kids_w w_new Cons.prems(4) by auto
    then have "get_state (update_node parents w ?R') c = get_state ?R' c"
      by (simp add: get_state_update_other)
    moreover have "get_state ?R' c \<le> get_state (update_node parents w ?R') w"
      using update_node_ge Cons.prems(4) True by simp
    ultimately show ?thesis using True by simp
  next
    case False
    then have v_in: "v \<in> set ws" using Cons.prems by simp
    have "set (children_of parents v) \<subseteq> set ws"
      using topo_closed [of parents "{}" ws v] Cons.prems v_in by simp
    then have "c \<in> set ws" using Cons.prems(4) by auto
    then have "c \<noteq> w" using w_new by auto
    have "get_state ?R' c \<le> get_state ?R' v"
      using Cons.IH [OF _ _ v_in Cons.prems(4)] Cons.prems by simp
    then show ?thesis
      using False \<open>c \<noteq> w\<close> by (simp add: get_state_update_other)
  qed
qed

lemma traversal_order_props:
  assumes "distinct (map fst parents)"
  shows "distinct (traversal_order parents all_taxids)"
    and "topo parents {} (traversal_order parents all_taxids)"
    and "set (tree_roots parents all_taxids) \<subseteq> set (traversal_order parents all_taxids)"
proof -
  let ?roots = "tree_roots parents all_taxids"
  have no_parent: "\<And>c. c \<in> set ?roots \<Longrightarrow> map_of parents c = None"
    by (auto simp: tree_roots_def map_of_eq_None_iff)
  have "dfs_inv parents (rev ?roots) []"
    using no_parent by (auto simp: dfs_inv_def tree_roots_def)
  from dfs_result [OF assms this, of "{}"]
  show "distinct (traversal_order parents all_taxids)"
    and "topo parents {} (traversal_order parents all_taxids)"
    and "set (tree_roots parents all_taxids) \<subseteq> set (traversal_order parents all_taxids)"
    by (simp_all add: traversal_order_def)
qed

lemma reaches_root_visited:
  assumes d: "distinct (map fst parents)"
  shows "reaches_root parents (set (tree_roots parents all_taxids)) k n \<Longrightarrow>
     n \<in> set (traversal_order parents all_taxids)"
proof (induction k arbitrary: n)
  case 0
  then show ?case using traversal_order_props(3) [OF d] by auto
next
  case (Suc k)
  show ?case
  proof (cases "n \<in> set (tree_roots parents all_taxids)")
    case True
    then show ?thesis using traversal_order_props(3) [OF d] by auto
  next
    case False
    then obtain p where p: "map_of parents n = Some p"
      and r: "reaches_root parents (set (tree_roots parents all_taxids)) k p"
      using Suc.prems by (auto split: option.splits)
    have "p \<in> set (traversal_order parents all_taxids)" using Suc.IH [OF r] .
    moreover have "n \<in> set (children_of parents p)"
      using children_of_map_of [OF d] p by simp
    ultimately show ?thesis
      using topo_closed [OF traversal_order_props(2) [OF d]] by blast
  qed
qed

lemma load_species_matrix_fold:
  "fold (\<lambda>(tid, a, n, r) result.
             result(tid \<mapsto> species_state (a \<noteq> 0) (n \<noteq> 0) (r \<noteq> 0))) rows m tid =
     (case filter (\<lambda>(t, a, n, r). t = tid) (rev rows) of
        [] \<Rightarrow> m tid
      | (t, a, n, r) # _ \<Rightarrow> Some (species_state (a \<noteq> 0) (n \<noteq> 0) (r \<noteq> 0)))"
proof (induction rows rule: rev_induct)
  case Nil
  then show ?case by simp
next
  case (snoc row rows)
  obtain t a n r where row: "row = (t, a, n, r)" by (cases row) auto
  show ?case
    using snoc by (simp add: row)
qed

lemma get_state_load_species_matrix:
  "get_state (load_species_matrix rows) tid = leaf_classification rows tid"
  by (simp add: get_state_def load_species_matrix_def load_species_matrix_fold
      leaf_classification_def split: list.splits)

text \<open>
  Claim C4. After coverage propagation over a rooted tree, the state of every internal
  node is at least the maximum state of its children, and the state of every leaf is
  the six-way classification of its three flags in the species matrix (\<open>NO_DATA\<close>
  for a leaf the matrix does not list).
\<close>

theorem coverage_propagation:
  assumes rooted: "rooted_tree parents all_taxids"
  shows "(\<forall>n. children_of parents n \<noteq> [] \<longrightarrow>
            Max (set (map (get_state (propagate_states (load_species_matrix rows) parents all_taxids))
                       (children_of parents n)))
              \<le> get_state (propagate_states (load_species_matrix rows) parents all_taxids) n) \<and>
         (\<forall>n \<in> set all_taxids. children_of parents n = [] \<longrightarrow>
            propagate_states (load_species_matrix rows) parents all_taxids n
              = Some (leaf_classification rows n))"
proof (intro conjI allI ballI impI)
  let ?order = "traversal_order parents all_taxids"
  let ?state = "\<lambda>tid. if tid \<in> set all_taxids
                 then Some (get_state (load_species_matrix rows) tid) else None"
  let ?final = "propagate_states (load_species_matrix rows) parents all_taxids"
  have final: "?final = foldr (update_node parents) ?order ?state"
    by (simp add: propagate_states_def Let_def foldr_conv_fold)
  have d: "distinct (map fst parents)" using rooted by (simp add: rooted_tree_def)
  {
    fix n assume kids: "children_of parents n \<noteq> []"
    then have "n \<in> snd ` set parents"
      by (cases "children_of parents n") (force simp: children_of_def filter_eq_Cons_iff)+
    then have "reaches_root parents (set (tree_roots parents all_taxids)) (length parents) n"
      using rooted by (simp add: rooted_tree_def)
    then have visited: "n \<in> set ?order" by (rule reaches_root_visited [OF d])
    have "\<And>c. c \<in> set (children_of parents n) \<Longrightarrow> get_state ?final c \<le> get_state ?final n"
      unfolding final
      by (rule foldr_update_mono [OF traversal_order_props(1,2) [OF d] visited])
    then show "Max (set (map (get_state ?final) (children_of parents n))) \<le> get_state ?final n"
      using kids by (subst Max_le_iff) auto
  next
    fix n assume "n \<in> set all_taxids" and "children_of parents n = []"
    then show "?final n = Some (leaf_classification rows n)"
      unfolding final by (simp add: foldr_update_leaf get_state_load_species_matrix)
  }
qed

text \<open>
  The theorem at the tree 1 \<open>\<rightarrow>\<close> \{2, 3\}, 2 \<open>\<rightarrow>\<close> \{4\}, where species 3 has
  all three flags and species 4 has reads only.
\<close>

theorem coverage_propagation_witness:
  "rooted_tree [(2,1),(3,1),(4,2)] [1,2,3,4] \<and>
   Max (set (map (get_state (propagate_states (load_species_matrix [(3,1,1,1),(4,0,0,1)])
                    [(2,1),(3,1),(4,2)] [1,2,3,4]))
              (children_of [(2,1),(3,1),(4,2)] 1)))
     \<le> get_state (propagate_states (load_species_matrix [(3,1,1,1),(4,0,0,1)])
                    [(2,1),(3,1),(4,2)] [1,2,3,4]) 1 \<and>
   propagate_states (load_species_matrix [(3,1,1,1),(4,0,0,1)]) [(2,1),(3,1),(4,2)] [1,2,3,4] 4
     = Some (leaf_classification [(3,1,1,1),(4,0,0,1)] 4) \<and>
   leaf_classification [(3,1,1,1),(4,0,0,1)] 4 = 1"
proof -
  have r: "rooted_tree [(2,1),(3,1),(4,2)] [1,2,3,4]"
    by (simp add: rooted_tree_def tree_roots_def)
  have k: "children_of [(2,1),(3,1),(4,2)] 1 \<noteq> []"
    and l: "children_of [(2,1),(3,1),(4,2)] 4 = []"
    by (simp_all add: children_of_def)
  have c: "leaf_classification [(3,1,1,1),(4,0,0,1)] 4 = 1"
    by (simp add: leaf_classification_def species_state_def state_consts)
  show ?thesis
    using coverage_propagation [OF r, of "[(3,1,1,1),(4,0,0,1)]"] r k l c by simp
qed

subsection \<open>Tile budget and row assignment\<close>

lemma length_head: "0 \<le> n \<Longrightarrow> int (length (head n xs)) \<le> n"
  by (simp add: head_def)

lemma length_aggregate_subtrees:
  "0 \<le> max_n \<Longrightarrow> int (length (aggregate_subtrees tile_df max_n)) \<le> max_n"
  unfolding aggregate_subtrees_def Let_def
  by (simp only: length_head split: if_splits) simp

lemma length_lod_downsample:
  "0 \<le> max_n \<Longrightarrow> int (length (lod_downsample tile_df max_n)) \<le> max_n"
  by (simp add: lod_downsample_def length_aggregate_subtrees)

text \<open>
  Claim C3. Whatever the input rows, the tile produced for a zoom level and a row by
  the LOD reduction (chain collapse then aggregation, or aggregation alone above
  100000 rows) has at most 20000 rows.
\<close>

theorem tile_budget:
  "int (length (lod_downsample tile_df MAX_NODES_PER_TILE)) \<le> 20000 \<and>
   int (length (tile_of oor df z ty)) \<le> 20000"
  using length_lod_downsample [of MAX_NODES_PER_TILE]
  by (simp add: tile_of_def MAX_NODES_PER_TILE_def)

lemma assign_tile_y_bounds:
  "0 \<le> assign_tile_y oor z yv \<and> assign_tile_y oor z yv \<le> 2 ^ z - 1"
  by (simp add: assign_tile_y_def clip_def Let_def)

lemma trunc_ge:
  assumes "real_of_int k \<le> v" "0 \<le> k" shows "k \<le> trunc_toward_zero v"
  using assms by (auto simp: trunc_toward_zero_def le_floor_iff)

lemma trunc_neg: "v < 0 \<Longrightarrow> trunc_toward_zero v \<le> 0"
  by (simp add: trunc_toward_zero_def ceiling_le_iff)

lemma assign_tile_y_last:
  assumes "1 \<le> yv" "yv * 2 ^ z < 2 ^ 63"
  shows "assign_tile_y oor z yv = 2 ^ z - 1"
proof -
  have a: "real_of_int (2 ^ z) \<le> yv * 2 ^ z" using assms(1) by simp
  have lo: "(2::int) ^ z \<le> trunc_toward_zero (yv * 2 ^ z)"
    by (rule trunc_ge [OF a]) simp
  have "0 \<le> yv * 2 ^ z" using assms(1) by simp
  then have "trunc_toward_zero (yv * 2 ^ z) = \<lfloor>yv * 2 ^ z\<rfloor>"
    by (simp add: trunc_toward_zero_def)
  moreover have "\<lfloor>yv * 2 ^ z\<rfloor> < 2 ^ 63"
    using assms(2) by (simp add: floor_less_iff)
  ultimately have hi: "trunc_toward_zero (yv * 2 ^ z) < 2 ^ 63" by simp
  have "- (2 ^ 63) \<le> trunc_toward_zero (yv * 2 ^ z)"
    using lo by (smt (verit) zero_less_power)
  then show ?thesis
    using lo hi by (simp add: assign_tile_y_def astype_int64_def clip_def Let_def)
qed

lemma assign_tile_y_first:
  assumes "yv < 0" "- (2 ^ 63) \<le> yv * 2 ^ z"
  shows "assign_tile_y oor z yv = 0"
proof -
  have neg: "yv * 2 ^ z < 0" using assms(1) by (simp add: mult_less_0_iff)
  have le0: "trunc_toward_zero (yv * 2 ^ z) \<le> 0" by (rule trunc_neg [OF neg])
  have "trunc_toward_zero (yv * 2 ^ z) = \<lceil>yv * 2 ^ z\<rceil>"
    using neg by (simp add: trunc_toward_zero_def)
  moreover have "- (2 ^ 63) \<le> \<lceil>yv * 2 ^ z\<rceil>"
    using assms(2) by (simp add: le_ceiling_iff)
  ultimately have "- (2 ^ 63) \<le> trunc_toward_zero (yv * 2 ^ z)" by simp
  moreover have "trunc_toward_zero (yv * 2 ^ z) < 2 ^ 63"
    using le0 by (smt (verit) zero_less_power)
  ultimately show ?thesis
    using le0 by (simp add: assign_tile_y_def astype_int64_def clip_def Let_def)
qed

lemma assign_tile_y_inside:
  assumes "0 \<le> yv" "yv < 1" "z \<le> 7"
  shows "assign_tile_y oor z yv = \<lfloor>yv * 2 ^ z\<rfloor>"
proof -
  have nn: "0 \<le> yv * 2 ^ z" using assms(1) by simp
  have lt: "yv * 2 ^ z < 2 ^ z" using assms(2) by simp
  have t: "trunc_toward_zero (yv * 2 ^ z) = \<lfloor>yv * 2 ^ z\<rfloor>"
    using nn by (simp add: trunc_toward_zero_def)
  have f0: "0 \<le> \<lfloor>yv * 2 ^ z\<rfloor>" using nn by simp
  have f1: "\<lfloor>yv * 2 ^ z\<rfloor> < 2 ^ z" using lt by (simp add: floor_less_iff)
  have "(2::int) ^ z \<le> 2 ^ 7" using assms(3) by (intro power_increasing) auto
  then have "\<lfloor>yv * 2 ^ z\<rfloor> < 2 ^ 7" using f1 by linarith
  moreover have "(2::int) ^ 7 \<le> 2 ^ 63" by simp
  ultimately have f2: "\<lfloor>yv * 2 ^ z\<rfloor> < 2 ^ 63" by (rule order.strict_trans2)
  show ?thesis
    using t f0 f1 f2 by (simp add: assign_tile_y_def astype_int64_def clip_def Let_def)
qed

text \<open>
  Claim C10. At every zoom level \<open>z\<close> from 0 to 7 the row index lies between 0 and
  \<open>2 ^ z - 1\<close>; a \<open>y\<close> of at least 1 goes to the last row and a negative \<open>y\<close> to
  row 0 (where the scaled value fits the 64-bit cast), a \<open>y\<close> in between to row
  \<open>\<lfloor>y * 2 ^ z\<rfloor>\<close>; so every row of the data frame lies in exactly one bucket of the
  level.
\<close>

theorem row_assignment:
  assumes "z \<in> set ZOOM_LEVELS"
  shows "0 \<le> assign_tile_y oor z yv \<and> assign_tile_y oor z yv \<le> 2 ^ z - 1 \<and>
     (1 \<le> yv \<and> yv * 2 ^ z < 2 ^ 63 \<longrightarrow> assign_tile_y oor z yv = 2 ^ z - 1) \<and>
     (yv < 0 \<and> - (2 ^ 63) \<le> yv * 2 ^ z \<longrightarrow> assign_tile_y oor z yv = 0) \<and>
     (0 \<le> yv \<and> yv < 1 \<longrightarrow> assign_tile_y oor z yv = \<lfloor>yv * 2 ^ z\<rfloor>) \<and>
     (\<forall>row \<in> set df. \<exists>!ty. ty \<in> set [0..2 ^ z - 1] \<and> row \<in> set (bucket oor df z ty))"
proof -
  have z: "z \<le> 7" using assms by (simp add: ZOOM_LEVELS_def)
  have "\<exists>!ty. ty \<in> set [0..2 ^ z - 1] \<and> row \<in> set (bucket oor df z ty)"
    if "row \<in> set df" for row
    using that assign_tile_y_bounds [of oor z "ypos row"] by (auto simp: bucket_def)
  then show ?thesis
    using assign_tile_y_bounds [of oor z yv] assign_tile_y_last [of yv z oor]
      assign_tile_y_first [of yv z oor] assign_tile_y_inside [OF _ _ z, of yv oor]
    by blast
qed

theorem row_assignment_witness:
  "3 \<in> set ZOOM_LEVELS \<and> assign_tile_y 0 3 1 = 7 \<and> assign_tile_y 0 3 (- 1 / 4) = 0 \<and>
   assign_tile_y 0 3 (3 / 8) = 3 \<and>
   (\<exists>!ty. ty \<in> set [0..2 ^ 3 - 1] \<and> row0 \<in> set (bucket 0 [row0] 3 ty))"
proof -
  have z: "3 \<in> set ZOOM_LEVELS" by (simp add: ZOOM_LEVELS_def)
  show ?thesis
    using z row_assignment [OF z, of 0 1 "[row0]"] row_assignment [OF z, of 0 "- 1 / 4" "[]"]
      row_assignment [OF z, of 0 "3 / 8" "[]"]
    by simp
qed

subsection \<open>Chain collapsing\<close>

lemma keep_node_chain:
  assumes "parent_to_children tile_df a = [b]"
  shows "keep_node tile_df a \<longleftrightarrow> length (parent_to_children tile_df b) \<noteq> 1"
  using assms by (simp add: keep_node_def)

lemma keep_node_leaf:
  assumes "parent_to_children tile_df d = []"
  shows "keep_node tile_df d"
  using assms by (simp add: keep_node_def)

lemma in_collapse_chains:
  assumes "int (length tile_df) > MAX_NODES_PER_TILE"
  shows "row \<in> set (collapse_chains tile_df) \<longleftrightarrow> row \<in> set tile_df \<and> keep_node tile_df (taxid row)"
  using assms by (auto simp: collapse_chains_def keep_def)

text \<open>
  Claim C2, as the code has it. In a tile of more than 20000 rows that contains a
  single-child chain \<open>a \<rightarrow> b \<rightarrow> c \<rightarrow> d\<close> ending in the leaf \<open>d\<close>, chain collapsing
  keeps the rows of \<open>c\<close> (the node whose only child is a leaf) and of \<open>d\<close>, and drops
  the rows of \<open>a\<close> and \<open>b\<close> (nodes whose only child has itself exactly one child). A
  tile of at most 20000 rows is returned unchanged.
\<close>

theorem collapse_chains_chain:
  assumes "parent_to_children tile_df a = [b]"
      and "parent_to_children tile_df b = [c]"
      and "parent_to_children tile_df c = [d]"
      and "parent_to_children tile_df d = []"
  shows "(int (length tile_df) > MAX_NODES_PER_TILE \<longrightarrow>
            (\<forall>row \<in> set tile_df.
               (taxid row = c \<or> taxid row = d \<longrightarrow> row \<in> set (collapse_chains tile_df)) \<and>
               (taxid row = a \<or> taxid row = b \<longrightarrow> row \<notin> set (collapse_chains tile_df)))) \<and>
         (int (length tile_df) \<le> MAX_NODES_PER_TILE \<longrightarrow> collapse_chains tile_df = tile_df)"
proof (intro conjI impI ballI)
  assume big: "int (length tile_df) > MAX_NODES_PER_TILE"
  fix row assume "row \<in> set tile_df"
  { assume "taxid row = c \<or> taxid row = d"
    then show "row \<in> set (collapse_chains tile_df)"
      using \<open>row \<in> set tile_df\<close> assms
      by (auto simp: in_collapse_chains [OF big] keep_node_chain keep_node_leaf) }
  { assume "taxid row = a \<or> taxid row = b"
    then show "row \<notin> set (collapse_chains tile_df)"
      using assms by (auto simp: in_collapse_chains [OF big] keep_node_chain) }
next
  assume "int (length tile_df) \<le> MAX_NODES_PER_TILE"
  then show "collapse_chains tile_df = tile_df" by (simp add: collapse_chains_def)
qed

lemma filter_map_none: "(\<And>x. x \<in> set xs \<Longrightarrow> \<not> P (f x)) \<Longrightarrow> filter P (map f xs) = []"
  by (induction xs) auto

lemma chain_tile_length: "int (length chain_tile) > MAX_NODES_PER_TILE"
  by (simp add: chain_tile_def MAX_NODES_PER_TILE_def n_leaves_def)

lemma chain_tile_taxids: "t \<in> {1,2,3,4,5} \<Longrightarrow> t \<in> taxid ` set chain_tile"
  by (auto simp: chain_tile_def mk_row_def image_iff)

lemma chain_tile_children:
  "parent_to_children chain_tile 2 = [3]"
  "parent_to_children chain_tile 3 = [4]"
  "parent_to_children chain_tile 4 = [5]"
  "parent_to_children chain_tile 5 = []"
  using chain_tile_taxids [of 2] chain_tile_taxids [of 3] chain_tile_taxids [of 4]
  by (simp_all add: parent_to_children_def chain_tile_def mk_row_def filter_map_none)


lemma chain_tile_rows:
  "mk_row 2 1 1 \<in> set chain_tile" "mk_row 3 2 2 \<in> set chain_tile"
  "mk_row 4 3 3 \<in> set chain_tile" "mk_row 5 4 4 \<in> set chain_tile"
  by (simp_all add: chain_tile_def)

lemma taxid_mk_row: "taxid (mk_row t p d) = t"
  by (simp add: mk_row_def)

theorem collapse_chains_chain_witness:
  "parent_to_children chain_tile 2 = [3] \<and> parent_to_children chain_tile 3 = [4] \<and>
   parent_to_children chain_tile 4 = [5] \<and> parent_to_children chain_tile 5 = [] \<and>
   int (length chain_tile) > MAX_NODES_PER_TILE \<and>
   mk_row 4 3 3 \<in> set (collapse_chains chain_tile) \<and>
   mk_row 5 4 4 \<in> set (collapse_chains chain_tile) \<and>
   mk_row 2 1 1 \<notin> set (collapse_chains chain_tile) \<and>
   mk_row 3 2 2 \<notin> set (collapse_chains chain_tile)"
  using collapse_chains_chain [OF chain_tile_children] chain_tile_children chain_tile_length
    chain_tile_rows
  by (auto simp: taxid_mk_row)

text \<open>
  The claim as stated fails. In the large tile the chain head 2 is dropped and the
  middle node 4 is kept. The tile of the four chain rows alone is within the budget and
  is returned whole, with the middle nodes 3 and 4; and the rule that decides what to
  keep, applied to that tile, would again drop the head 2 and keep the middle node 4.
\<close>

theorem chain_head_dropped_counterexample:
  "int (length chain_tile) > MAX_NODES_PER_TILE \<and>
   mk_row 2 1 1 \<in> set chain_tile \<and> mk_row 4 3 3 \<in> set chain_tile \<and>
   mk_row 2 1 1 \<notin> set (collapse_chains chain_tile) \<and>
   mk_row 4 3 3 \<in> set (collapse_chains chain_tile) \<and>
   collapse_chains small_chain = small_chain \<and>
   \<not> keep_node small_chain 2 \<and> keep_node small_chain 4"
proof -
  have small: "collapse_chains small_chain = small_chain"
    by (simp add: collapse_chains_def small_chain_def MAX_NODES_PER_TILE_def)
  have rule: "\<not> keep_node small_chain 2 \<and> keep_node small_chain 4"
    by (simp add: keep_node_def parent_to_children_def small_chain_def mk_row_def)
  show ?thesis
    using small rule chain_tile_children chain_tile_length chain_tile_rows
    by (simp add: in_collapse_chains keep_node_chain taxid_mk_row)
qed

subsection \<open>Tree building\<close>














subsection \<open>Radial layout\<close>








lemma child_angs_length: "length (child_angs descs) = length descs"
  by (simp add: child_angs_def Let_def)




lemma not_float_overflows: "q \<le> 30 \<Longrightarrow> \<not> float_overflows q"
proof -
  have "(30::real) < 2 ^ 1024 - 2 ^ 970" by simp
  then show "q \<le> 30 \<Longrightarrow> \<not> float_overflows q"
    unfolding float_overflows_def by linarith
qed

lemma zoomview_of_returns:
  assumes "1 \<le> r"
  shows "zoomview_of r = Inr (max 0 \<lceil>log 2 (ZOOM_CONST / r)\<rceil>)"
proof -
  have "ZOOM_CONST / r \<le> 30"
    using assms by (simp add: ZOOM_CONST_def pos_divide_le_eq)
  then have "\<not> float_overflows (ZOOM_CONST / r)" by (rule not_float_overflows)
  then show ?thesis using assms by (simp add: zoomview_of_def)
qed


lemma sequence_Inr: "sequence rs = Inr vs \<longleftrightarrow> rs = map Inr vs"
proof (induction rs arbitrary: vs)
  case Nil
  then show ?case by auto
next
  case (Cons r rs)
  show ?case
  proof (cases r)
    case (Inl e)
    then show ?thesis by auto
  next
    case (Inr v)
    have "sequence (r # rs) = Inr vs \<longleftrightarrow> (\<exists>ws. sequence rs = Inr ws \<and> vs = v # ws)"
      unfolding Inr by (cases "sequence rs") auto
    also have "\<dots> \<longleftrightarrow> (\<exists>ws. rs = map Inr ws \<and> vs = v # ws)"
      using Cons.IH by simp
    also have "\<dots> \<longleftrightarrow> r # rs = map Inr vs"
      unfolding Inr by (auto simp: Cons_eq_map_conv)
    finally show ?thesis .
  qed
qed

lemma map_upt_eq_map:
  "map f [0..<n] = map g ys \<longleftrightarrow> length ys = n \<and> (\<forall>i < n. f i = g (ys ! i))"
  by (auto simp: list_eq_iff_nth_eq)

lemma place_children_Inr:
  assumes "place_children a cs = Inr as"
  shows "length as = length cs"
    and "i < length cs \<Longrightarrow>
           ray (as ! i) = child_ray (special_case (length cs) (nbdesc a)) (ray a)
                            (child_angs (map count_descendants cs) ! i)"
    and "i < length cs \<Longrightarrow> zoomview_of (ray (as ! i)) = Inr (zoomview (as ! i))"
    and "i < length cs \<Longrightarrow> nbdesc (as ! i) = count_descendants (cs ! i)"
proof -
  define rays where "rays = map (child_ray (special_case (length cs) (nbdesc a)) (ray a))
                 (child_angs (map count_descendants cs))"
  define finals where "finals = ang_final (alpha a) (child_angs (map count_descendants cs))"
  define mk where "mk = (\<lambda>i zv.
             \<lparr>lid = node_id (cs ! i), lname = node_name (cs ! i), lrank = node_rank (cs ! i),
              px = px a + (map (\<lambda>r. ray a - r) rays ! i) * cos (rad (finals ! i)),
              py = py a + (map (\<lambda>r. ray a - r) rays ! i) * sin (rad (finals ! i)),
              alpha = finals ! i, ray = rays ! i, zoomview = zv,
              nbdesc = map count_descendants cs ! i\<rparr>)"
  have pl: "place_children a cs =
      sequence (map (\<lambda>i. case zoomview_of (rays ! i) of Inl e \<Rightarrow> Inl e
                            | Inr zv \<Rightarrow> Inr (mk i zv)) [0..<length cs])"
    unfolding place_children_def Let_def rays_def finals_def mk_def by (rule refl)
  have len: "length as = length cs"
    and each: "\<And>j. j < length cs \<Longrightarrow>
        (case zoomview_of (rays ! j) of Inl e \<Rightarrow> Inl e | Inr zv \<Rightarrow> Inr (mk j zv)) = Inr (as ! j)"
    using assms unfolding pl sequence_Inr map_upt_eq_map by auto
  show "length as = length cs" by (rule len)
  {
    assume i: "i < length cs"
    obtain zv where zv: "zoomview_of (rays ! i) = Inr zv" and asi: "as ! i = mk i zv"
      using each [OF i] by (cases "zoomview_of (rays ! i)") auto
    show "ray (as ! i) = child_ray (special_case (length cs) (nbdesc a)) (ray a)
                            (child_angs (map count_descendants cs) ! i)"
      using i by (simp add: asi mk_def rays_def child_angs_length)
    show "zoomview_of (ray (as ! i)) = Inr (zoomview (as ! i))"
      using zv by (simp add: asi mk_def)
    show "nbdesc (as ! i) = count_descendants (cs ! i)"
      using i by (simp add: asi mk_def)
  }
qed



lemma layout_Inr:
  assumes "layout limit (Node i nm rk pre cs) a = Inr lt"
  shows "\<exists>k as ls. limit = Suc k \<and> place_children a cs = Inr as \<and>
           length ls = length cs \<and> lt = LNode a ls \<and>
           (\<forall>j < length cs. layout k (cs ! j) (as ! j) = Inr (ls ! j))"
proof -
  obtain k where k: "limit = Suc k"
    using assms by (cases limit) auto
  obtain as where as: "place_children a cs = Inr as"
    using assms unfolding k by (auto split: sum.splits)
  obtain ls where seq: "sequence (map (\<lambda>(c, b). layout k c b) (zip cs as)) = Inr ls"
    and lt: "lt = LNode a ls"
    using assms unfolding k by (auto simp: as split: sum.splits)
  have len: "length as = length cs" by (rule place_children_Inr(1) [OF as])
  have "map (\<lambda>(c, b). layout k c b) (zip cs as) = map Inr ls"
    using seq by (simp add: sequence_Inr)
  then have "length ls = length cs \<and> (\<forall>j < length cs. layout k (cs ! j) (as ! j) = Inr (ls ! j))"
    using len by (auto simp: list_eq_iff_nth_eq)
  then show ?thesis using k as lt by blast
qed

lemma layout_attrs:
  assumes "layout limit t a = Inr lt"
  shows "attrs lt = a"
proof -
  obtain i nm rk pre cs where t: "t = Node i nm rk pre cs" by (cases t) auto
  from layout_Inr [OF assms [unfolded t]] obtain ls where "lt = LNode a ls" by auto
  then show ?thesis by simp
qed



lemma radial_layout_Inr:
  assumes "radial_layout limit t = Inr res"
  shows "\<exists>laid. layout limit t
             \<lparr>lid = node_id t, lname = node_name t, lrank = node_rank t,
              px = ROOT_X, py = ROOT_Y, alpha = ROOT_ALPHA, ray = ROOT_RAY,
              zoomview = max 0 \<lceil>log 2 (ZOOM_CONST / ROOT_RAY)\<rceil>,
              nbdesc = count_descendants t\<rparr> = Inr laid \<and>
           res = \<lparr>rl_nodes = collect laid, rl_root_id = node_id t, rl_tree = laid\<rparr>"
  using assms by (auto simp: radial_layout_def Let_def split: if_splits sum.splits)


lemma binary64_normal:
  assumes "2 powr real_of_int k \<le> \<bar>v\<bar>" and "\<bar>v\<bar> < 2 powr real_of_int (k + 1)"
  shows "binary64 v =
           real_of_int (round_half_even (v / 2 powr real_of_int (k - 52))) * 2 powr real_of_int (k - 52)"
proof -
  have pos: "0 < \<bar>v\<bar>"
    using assms(1) by (smt (verit) powr_gt_zero)
  have "\<lfloor>log 2 \<bar>v\<bar>\<rfloor> = k"
    using assms pos by (simp add: floor_log_eq_powr_iff)
  then show ?thesis
    using pos by (simp add: binary64_def Let_def)
qed

lemma pow2_m49: "2 powr real_of_int (3 - 52) = 1 / 2 ^ 49"
  by (simp add: powr_minus_divide)

lemma pow2_m54: "2 powr real_of_int (- 2 - 52) = 1 / 2 ^ 54"
  by (simp add: powr_minus_divide)

lemma binary64_9_660254: "binary64 9.660254 = 5438239539338043 / 2 ^ 49"
proof -
  have "binary64 9.660254 =
      real_of_int (round_half_even (9.660254 / 2 powr real_of_int (3 - 52))) * 2 powr real_of_int (3 - 52)"
    by (rule binary64_normal) simp_all
  also have "\<dots> = 5438239539338043 / 2 ^ 49"
    unfolding pow2_m49 by (simp add: round_half_even_def Let_def)
  finally show ?thesis .
qed

lemma binary64_10: "binary64 10.0 = 10"
proof -
  have "binary64 10.0 =
      real_of_int (round_half_even (10.0 / 2 powr real_of_int (3 - 52))) * 2 powr real_of_int (3 - 52)"
    by (rule binary64_normal) simp_all
  also have "\<dots> = 10"
    unfolding pow2_m49 by (simp add: round_half_even_def Let_def)
  finally show ?thesis .
qed

lemma binary64_difference:
  "binary64 (5438239539338043 / 2 ^ 49 - 10) = - (191259994875077 / 2 ^ 49)"
proof -
  have "binary64 (5438239539338043 / 2 ^ 49 - 10) =
      real_of_int (round_half_even ((5438239539338043 / 2 ^ 49 - 10) / 2 powr real_of_int (- 2 - 52)))
        * 2 powr real_of_int (- 2 - 52)"
    by (rule binary64_normal) (simp_all add: powr_minus_divide)
  also have "\<dots> = - (191259994875077 / 2 ^ 49)"
    unfolding pow2_m54 by (simp add: round_half_even_def Let_def)
  finally show ?thesis .
qed

lemma ROOT_Y_value: "ROOT_Y = - (191259994875077 / 2 ^ 49)"
  by (simp only: ROOT_Y_def binary64_9_660254 binary64_10 binary64_difference)

lemma binary64_literal: "binary64 (- 0.339746) = - (3060159918001233 / 2 ^ 53)"
proof -
  have "binary64 (- 0.339746) =
      real_of_int (round_half_even (- 0.339746 / 2 powr real_of_int (- 2 - 52)))
        * 2 powr real_of_int (- 2 - 52)"
    by (rule binary64_normal) (simp_all add: powr_minus_divide)
  also have "\<dots> = - (3060159918001233 / 2 ^ 53)"
    unfolding pow2_m54 by (simp add: round_half_even_def Let_def)
  finally show ?thesis .
qed

lemma layout_unfold:
  "layout limit (Node i nm rk pre cs) a =
     (if limit = 0 then Inl RecursionError
      else case place_children a cs of
             Inl e \<Rightarrow> Inl e
           | Inr as \<Rightarrow>
               (case sequence (map (\<lambda>(c, b). layout (limit - 1) c b) (zip cs as)) of
                  Inl e \<Rightarrow> Inl e
                | Inr ls \<Rightarrow> Inr (LNode a ls)))"
proof (cases limit)
  case 0
  then show ?thesis by simp
next
  case (Suc k)
  show ?thesis unfolding Suc diff_Suc_1 by simp
qed


lemma layout_leaf: "0 < limit \<Longrightarrow> layout limit (leaf i) a = Inr (LNode a [])"
  by (simp add: leaf_def layout_unfold place_children_def)


lemma emit_attrs:
  "px (emit a b) = px a" "py (emit a b) = py a" "alpha (emit a b) = alpha a"
  "ray (emit a b) = ray a" "lid (emit a b) = lid a" "zoomview (emit a b) = zoomview a"
  "nbdesc (emit a b) = nbdesc a"
  by (simp_all add: emit_def Let_def lnode.defs)

lemma root_node:
  assumes "radial_layout limit t = Inr res"
  shows "\<exists>ls. rl_nodes res =
           collect (LNode \<lparr>lid = node_id t, lname = node_name t, lrank = node_rank t,
              px = ROOT_X, py = ROOT_Y, alpha = ROOT_ALPHA, ray = ROOT_RAY,
              zoomview = max 0 \<lceil>log 2 (ZOOM_CONST / ROOT_RAY)\<rceil>,
              nbdesc = count_descendants t\<rparr> ls)"
proof -
  let ?root = "\<lparr>lid = node_id t, lname = node_name t, lrank = node_rank t,
              px = ROOT_X, py = ROOT_Y, alpha = ROOT_ALPHA, ray = ROOT_RAY,
              zoomview = max 0 \<lceil>log 2 (ZOOM_CONST / ROOT_RAY)\<rceil>,
              nbdesc = count_descendants t\<rparr>"
  from radial_layout_Inr [OF assms] obtain laid where
    laid: "layout limit t ?root = Inr laid" and res: "rl_nodes res = collect laid"
    by auto
  have "attrs laid = ?root" by (rule layout_attrs [OF laid])
  then have "laid = LNode ?root (lchildren laid)" by (cases laid) simp
  then show ?thesis using res by metis
qed

lemma root_node_attrs:
  assumes "radial_layout limit t = Inr res"
  shows "lid (hd (rl_nodes res)) = node_id t" and "px (hd (rl_nodes res)) = ROOT_X"
    and "py (hd (rl_nodes res)) = ROOT_Y" and "alpha (hd (rl_nodes res)) = ROOT_ALPHA"
    and "ray (hd (rl_nodes res)) = ROOT_RAY"
  using root_node [OF assms] by (auto simp: emit_attrs)

lemma place_single:
  assumes "ray a = 10" and "nbdesc a = Suc n" and "0 < n"
  shows "\<exists>x. place_children a [c] = Inr [x] \<and> ray x = 8 \<and> nbdesc x = count_descendants c"
proof -
  have z: "zoomview_of 8 = Inr (max 0 \<lceil>log 2 (ZOOM_CONST / 8)\<rceil>)"
    by (rule zoomview_of_returns) simp
  show ?thesis
    using assms
    by (simp add: place_children_def Let_def child_angs_def special_case_def child_ray_def z)
qed


lemma radial_layout_unfold:
  assumes "count_depth t \<le> limit"
    and "layout limit t
           \<lparr>lid = node_id t, lname = node_name t, lrank = node_rank t,
            px = ROOT_X, py = ROOT_Y, alpha = ROOT_ALPHA, ray = ROOT_RAY,
            zoomview = max 0 \<lceil>log 2 (ZOOM_CONST / ROOT_RAY)\<rceil>,
            nbdesc = count_descendants t\<rparr> = Inr laid"
  shows "radial_layout limit t =
           Inr \<lparr>rl_nodes = collect laid, rl_root_id = node_id t, rl_tree = laid\<rparr>"
  using assms by (simp add: radial_layout_def Let_def)

lemma single_leaf_tree_layout:
  "\<exists>res. radial_layout 5000 single_leaf_tree = Inr res \<and> map ray (rl_nodes res) = [10, 8]"
proof -
  let ?t = "single_leaf_tree"
  let ?root = "\<lparr>lid = node_id ?t, lname = node_name ?t, lrank = node_rank ?t,
            px = ROOT_X, py = ROOT_Y, alpha = ROOT_ALPHA, ray = ROOT_RAY,
            zoomview = max 0 \<lceil>log 2 (ZOOM_CONST / ROOT_RAY)\<rceil>,
            nbdesc = count_descendants ?t\<rparr>"
  have depth: "count_depth ?t \<le> 5000"
    by (simp add: single_leaf_tree_def leaf_def)
  have "ray ?root = 10" and "nbdesc ?root = Suc 1"
    by (simp_all add: ROOT_RAY_def single_leaf_tree_def leaf_def)
  from place_single [OF this, of "leaf ''c''"]
  obtain x where x: "place_children ?root [leaf ''c''] = Inr [x]" and rx: "ray x = 8"
    by auto
  have "layout 5000 ?t ?root = Inr (LNode ?root [LNode x []])"
    unfolding single_leaf_tree_def layout_unfold
    using x by (simp add: layout_leaf single_leaf_tree_def)
  from radial_layout_unfold [OF depth this]
  show ?thesis using rx by (simp add: emit_attrs ROOT_RAY_def)
qed



text \<open>
  Claim C8, as the code has it. With the default constants, whenever the layout
  returns, the first node it emits is the root, with x equal to -6.0, alpha 150 and ray
  10.0, and with y equal to the double that \<^verbatim>\<open>9.660254 - 10.0\<close> evaluates to. That
  double is \<open>-191259994875077 / 2 ^ 49\<close>, printed -0.3397459999999999: it lies within
  \<open>1e-15\<close> of -0.339746 and \<open>2 ^ -53\<close> (two units in the last place) above the double
  of the literal -0.339746.
\<close>

theorem root_position:
  assumes "radial_layout limit t = Inr res"
  shows "lid (hd (rl_nodes res)) = node_id t \<and>
         px (hd (rl_nodes res)) = - 6.0 \<and>
         py (hd (rl_nodes res)) = ROOT_Y \<and>
         ROOT_Y = - (191259994875077 / 2 ^ 49) \<and>
         \<bar>py (hd (rl_nodes res)) - (- 0.339746)\<bar> < 1 / 10 ^ 15 \<and>
         py (hd (rl_nodes res)) - binary64 (- 0.339746) = 1 / 2 ^ 53 \<and>
         alpha (hd (rl_nodes res)) = 150 \<and>
         ray (hd (rl_nodes res)) = 10.0"
proof -
  have "\<bar>ROOT_Y - (- 0.339746)\<bar> < 1 / 10 ^ 15"
    unfolding ROOT_Y_value by simp
  moreover have "ROOT_Y - binary64 (- 0.339746) = 1 / 2 ^ 53"
    unfolding ROOT_Y_value binary64_literal by simp
  ultimately show ?thesis
    using root_node_attrs [OF assms] ROOT_Y_value
    by (simp add: ROOT_X_def ROOT_ALPHA_def ROOT_RAY_def)
qed

theorem root_position_witness:
  "\<exists>res. radial_layout 5000 single_leaf_tree = Inr res \<and>
         lid (hd (rl_nodes res)) = ''r'' \<and>
         px (hd (rl_nodes res)) = - 6.0 \<and>
         py (hd (rl_nodes res)) = - (191259994875077 / 2 ^ 49) \<and>
         alpha (hd (rl_nodes res)) = 150 \<and>
         ray (hd (rl_nodes res)) = 10.0"
proof -
  obtain res where res: "radial_layout 5000 single_leaf_tree = Inr res"
    using single_leaf_tree_layout by auto
  show ?thesis
    using root_position [OF res] res by (auto simp: single_leaf_tree_def)
qed

text \<open>
  The claim as stated fails: the y of the emitted root is neither the number -0.339746
  nor the double of the literal -0.339746.
\<close>

theorem root_y_counterexample:
  "\<exists>res. radial_layout 5000 single_leaf_tree = Inr res \<and>
         py (hd (rl_nodes res)) \<noteq> - 0.339746 \<and>
         py (hd (rl_nodes res)) \<noteq> binary64 (- 0.339746)"
proof -
  obtain res where res: "radial_layout 5000 single_leaf_tree = Inr res"
    using single_leaf_tree_layout by auto
  have "ROOT_Y \<noteq> - 0.339746"
    unfolding ROOT_Y_value by simp
  moreover have "ROOT_Y \<noteq> binary64 (- 0.339746)"
    unfolding ROOT_Y_value binary64_literal by simp
  ultimately show ?thesis
    using res root_node_attrs(3) [OF res] by auto
qed

lemma special_case_computed:
  "special_case 1 (count_descendants (Node i nm rk None [Node j nm' rk' None cs])) = 1"
  by (simp add: special_case_def)

text \<open>
  Claim C1 at a root whose only child is a leaf (descendant count 1): the code takes
  the 20 percent case, so the child has ray 8 where the claim gives 5. The test of the
  50 percent case reads the count of the node itself, which is at least 2 for a node
  with a child whenever the counts are computed.
\<close>

theorem single_leaf_child_ray:
  "length (node_children single_leaf_tree) = 1 \<and>
   count_descendants (hd (node_children single_leaf_tree)) = 1 \<and>
   (\<exists>res. radial_layout 5000 single_leaf_tree = Inr res \<and>
          map ray (rl_nodes res) = [10, 8])"
  using single_leaf_tree_layout by (simp add: single_leaf_tree_def leaf_def)

end
